theory Spec2Isabelle
  imports Main
begin

section \<open>Strings and character classes\<close>

text \<open>
  The program works on Python \<open>str\<close> values. A string is modelled as a \<^typ>\<open>string\<close>, one
  \<^typ>\<open>char\<close> per code point, so the model covers the code points U+0000 to U+00FF; the
  length of a string counts code points, as \<open>len\<close> does. The classes below are the ones
  the \<open>re\<close> module uses for \<open>str\<close> patterns on that range.
\<close>

definition code :: "char \<Rightarrow> nat" where
  "code c = of_char c"

definition is_upper :: "char \<Rightarrow> bool" where
  "is_upper c = (65 \<le> code c \<and> code c \<le> 90)"

definition is_lower :: "char \<Rightarrow> bool" where
  "is_lower c = (97 \<le> code c \<and> code c \<le> 122)"

definition is_alpha :: "char \<Rightarrow> bool" where
  "is_alpha c = (is_upper c \<or> is_lower c)"

text \<open>\<open>\d\<close> and \<open>[0-9]\<close>: below U+0100 the only decimal digits are 0 to 9.\<close>

definition is_digit :: "char \<Rightarrow> bool" where
  "is_digit c = (48 \<le> code c \<and> code c \<le> 57)"

text \<open>
  \<open>\w\<close>: alphanumeric code points and the underscore. Below U+0100 the alphanumeric
  code points outside ASCII are U+00AA, U+00B2, U+00B3, U+00B5, U+00B9, U+00BA,
  U+00BC to U+00BE, and U+00C0 to U+00FF without U+00D7 and U+00F7.
\<close>

definition is_word :: "char \<Rightarrow> bool" where
  "is_word c = (is_alpha c \<or> is_digit c \<or> code c = 95 \<or>
     code c \<in> {170, 178, 179, 181, 185, 186, 188, 189, 190} \<or>
     (192 \<le> code c \<and> code c \<noteq> 215 \<and> code c \<noteq> 247))"

text \<open>
  \<open>\s\<close> and the characters \<open>str.strip()\<close> removes: tab to carriage return, U+001C to
  U+001F, the space, U+0085 and U+00A0.
\<close>

definition is_space :: "char \<Rightarrow> bool" where
  "is_space c = ((9 \<le> code c \<and> code c \<le> 13) \<or> (28 \<le> code c \<and> code c \<le> 32) \<or>
     code c = 133 \<or> code c = 160)"

text \<open>Simple lower-casing, as \<open>re.IGNORECASE\<close> applies it to both sides of a comparison.\<close>

definition lower :: "char \<Rightarrow> char" where
  "lower c = (if is_upper c \<or> (192 \<le> code c \<and> code c \<le> 222 \<and> code c \<noteq> 215)
              then char_of (code c + 32) else c)"

section \<open>Patterns and the backtracking matcher\<close>

text \<open>
  The constructs the patterns of the program use. \<open>Rep lo hi c\<close> is the greedy repetition
  \<open>{lo,hi}\<close> of a one-character class (\<open>hi = None\<close> for no upper bound), \<open>Grp n r\<close> the
  capturing group number \<open>n\<close>; a non-capturing group needs no constructor.
\<close>

datatype re =
    Eps
  | Lit char
  | LitCI char
  | Cls "char \<Rightarrow> bool"
  | Rep nat "nat option" "char \<Rightarrow> bool"
  | Seq re re
  | Alt re re
  | Grp nat re
  | Bol
  | Eol
  | WordB

text \<open>
  A matcher state: the character before the current position (\<open>None\<close> at the start of
  the string), the rest of the input, and the groups captured so far, latest first.
\<close>

type_synonym mstate = "char option \<times> string \<times> (nat \<times> string) list"

fun advance :: "nat \<Rightarrow> mstate \<Rightarrow> mstate" where
  "advance 0 st = st"
| "advance (Suc j) (p, [], g) = (p, [], g)"
| "advance (Suc j) (p, x # xs, g) = advance j (Some x, xs, g)"

text \<open>The repetition counts a greedy repetition tries, longest first, down to \<open>lo\<close>.\<close>

primrec counts :: "nat \<Rightarrow> nat \<Rightarrow> nat list" where
  "counts lo 0 = (if lo = 0 then [0] else [])"
| "counts lo (Suc k) = (if Suc k < lo then [] else Suc k # counts lo k)"

definition word_before :: "char option \<Rightarrow> bool" where
  "word_before p = (case p of None \<Rightarrow> False | Some c \<Rightarrow> is_word c)"

definition word_after :: "string \<Rightarrow> bool" where
  "word_after s = (case s of [] \<Rightarrow> False | c # _ \<Rightarrow> is_word c)"

text \<open>
  \<open>m r st\<close> lists the states in which a match of \<open>r\<close> started at \<open>st\<close> can end, in the
  order in which the backtracking engine tries them: the first alternative before the
  second, the longer repetition before the shorter. \<open>$\<close> holds at the end of the string
  and just before a newline that ends it.
\<close>

primrec m :: "re \<Rightarrow> mstate \<Rightarrow> mstate list" where
  "m Eps st = [st]"
| "m (Lit c) st = (case st of (p, [], g) \<Rightarrow> []
     | (p, x # xs, g) \<Rightarrow> if x = c then [(Some x, xs, g)] else [])"
| "m (LitCI c) st = (case st of (p, [], g) \<Rightarrow> []
     | (p, x # xs, g) \<Rightarrow> if lower x = lower c then [(Some x, xs, g)] else [])"
| "m (Cls c) st = (case st of (p, [], g) \<Rightarrow> []
     | (p, x # xs, g) \<Rightarrow> if c x then [(Some x, xs, g)] else [])"
| "m (Rep lo hi c) st = (case st of (p, s, g) \<Rightarrow>
     (let k = length (takeWhile c s);
          k' = (case hi of None \<Rightarrow> k | Some h \<Rightarrow> min h k)
      in map (\<lambda>j. advance j st) (counts lo k')))"
| "m (Seq a b) st = concat (map (m b) (m a st))"
| "m (Alt a b) st = m a st @ m b st"
| "m (Grp n r) st = (case st of (p, s, g) \<Rightarrow>
     map (\<lambda>(p', s', g'). (p', s', (n, take (length s - length s') s) # g')) (m r st))"
| "m Bol st = (case st of (p, s, g) \<Rightarrow> if p = None then [st] else [])"
| "m Eol st = (case st of (p, s, g) \<Rightarrow> if s = [] \<or> s = [CHR 0x0A] then [st] else [])"
| "m WordB st = (case st of (p, s, g) \<Rightarrow> if word_before p \<noteq> word_after s then [st] else [])"

primrec ngroups :: "re \<Rightarrow> nat" where
  "ngroups Eps = 0"
| "ngroups (Lit c) = 0"
| "ngroups (LitCI c) = 0"
| "ngroups (Cls c) = 0"
| "ngroups (Rep lo hi c) = 0"
| "ngroups (Seq a b) = ngroups a + ngroups b"
| "ngroups (Alt a b) = ngroups a + ngroups b"
| "ngroups (Grp n r) = Suc (ngroups r)"
| "ngroups Bol = 0"
| "ngroups Eol = 0"
| "ngroups WordB = 0"

text \<open>The text of group \<open>n\<close>; a group that did not take part in the match reads as empty.\<close>

definition grp :: "nat \<Rightarrow> (nat \<times> string) list \<Rightarrow> string" where
  "grp n g = (case map_of g n of None \<Rightarrow> [] | Some t \<Rightarrow> t)"

subsection \<open>\<open>re.match\<close>\<close>

definition re_match :: "re \<Rightarrow> string \<Rightarrow> mstate option" where
  "re_match r s = (case m r (None, s, []) of [] \<Rightarrow> None | st # _ \<Rightarrow> Some st)"

subsection \<open>Scanning a text for successive matches\<close>

text \<open>
  \<open>findall\<close> and \<open>sub\<close> walk the text from left to right. At each position the first
  state the matcher offers is the match; the walk goes on where the match ended. Where
  nothing matches, one character is passed over. After an empty match the engine looks
  at the same position for a match that is not empty, and passes over one character if
  there is none.
\<close>

datatype tok = Skip char | Hit string "(nat \<times> string) list"

definition shorter :: "string \<Rightarrow> mstate \<Rightarrow> bool" where
  "shorter s st = (case st of (p', s', g') \<Rightarrow> length s' < length s)"

definition hit :: "string \<Rightarrow> mstate \<Rightarrow> tok" where
  "hit s st = (case st of (p', s', g') \<Rightarrow> Hit (take (length s - length s') s) g')"

function scan :: "re \<Rightarrow> char option \<Rightarrow> string \<Rightarrow> tok list" where
  "scan r p s =
     (let pass = (case s of [] \<Rightarrow> [] | x # xs \<Rightarrow> Skip x # scan r (Some x) xs) in
      case m r (p, s, []) of
        [] \<Rightarrow> pass
      | st # sts \<Rightarrow>
          if shorter s st then hit s st # scan r (fst st) (fst (snd st))
          else hit s st #
            (case find (shorter s) sts of
               None \<Rightarrow> pass
             | Some st' \<Rightarrow> hit s st' # scan r (fst st') (fst (snd st'))))"
  by pat_completeness auto
termination
  by (relation "measure (\<lambda>(r, p, s). length s)")
     (auto simp: shorter_def find_Some_iff split: prod.splits)

subsection \<open>\<open>re.search\<close>, \<open>re.findall\<close>, \<open>re.sub\<close>\<close>

fun is_hit :: "tok \<Rightarrow> bool" where
  "is_hit (Hit w g) = True"
| "is_hit (Skip c) = False"

definition re_search :: "re \<Rightarrow> string \<Rightarrow> bool" where
  "re_search r s = list_ex is_hit (scan r None s)"

text \<open>
  What \<open>findall\<close> returns for a match depends on the number of groups of the pattern:
  the matched text when there is none, the text of the group when there is one, the
  tuple of all groups otherwise.
\<close>

datatype item = Str string | Tuple "string list"

definition item_of :: "nat \<Rightarrow> string \<Rightarrow> (nat \<times> string) list \<Rightarrow> item" where
  "item_of n w g = (if n = 0 then Str w else if n = 1 then Str (grp 1 g)
                    else Tuple (map (\<lambda>i. grp i g) [1..<Suc n]))"

fun items :: "nat \<Rightarrow> tok list \<Rightarrow> item list" where
  "items n [] = []"
| "items n (Skip c # ts) = items n ts"
| "items n (Hit w g # ts) = item_of n w g # items n ts"

definition findall :: "re \<Rightarrow> string \<Rightarrow> item list" where
  "findall r s = items (ngroups r) (scan r None s)"

text \<open>
  A replacement template is a sequence of literal text and group references. A
  reference to a group the pattern does not have makes \<open>re.sub\<close> raise \<open>re.error\<close>
  before it looks at the text.
\<close>

datatype titem = TLit string | TRef nat

datatype re_error = InvalidGroupReference nat

fun bad_ref :: "nat \<Rightarrow> titem list \<Rightarrow> nat option" where
  "bad_ref n [] = None"
| "bad_ref n (TLit t # ts) = bad_ref n ts"
| "bad_ref n (TRef i # ts) = (if 1 \<le> i \<and> i \<le> n then bad_ref n ts else Some i)"

fun expand :: "titem list \<Rightarrow> (nat \<times> string) list \<Rightarrow> string" where
  "expand [] g = []"
| "expand (TLit t # ts) g = t @ expand ts g"
| "expand (TRef i # ts) g = grp i g @ expand ts g"

fun rebuild :: "titem list \<Rightarrow> tok list \<Rightarrow> string" where
  "rebuild tmpl [] = []"
| "rebuild tmpl (Skip c # ts) = c # rebuild tmpl ts"
| "rebuild tmpl (Hit w g # ts) = expand tmpl g @ rebuild tmpl ts"

definition sub :: "re \<Rightarrow> titem list \<Rightarrow> string \<Rightarrow> re_error + string" where
  "sub r tmpl s = (case bad_ref (ngroups r) tmpl of
       Some i \<Rightarrow> Inl (InvalidGroupReference i)
     | None \<Rightarrow> Inr (rebuild tmpl (scan r None s)))"

text \<open>\<open>str.strip()\<close> without argument.\<close>

definition strip :: "string \<Rightarrow> string" where
  "strip s = rev (dropWhile is_space (rev (dropWhile is_space s)))"

section \<open>The patterns of the program\<close>

primrec cat :: "re list \<Rightarrow> re" where
  "cat [] = Eps"
| "cat (r # rs) = Seq r (cat rs)"

definition lits :: "string \<Rightarrow> re" where
  "lits s = cat (map Lit s)"

text \<open>\<open>[a-zA-Z0-9._%+-]\<close>\<close>

definition email_local :: "char \<Rightarrow> bool" where
  "email_local c = (is_alpha c \<or> is_digit c \<or> c \<in> set ''._%+-'')"

text \<open>\<open>[a-zA-Z0-9.-]\<close>\<close>

definition email_domain :: "char \<Rightarrow> bool" where
  "email_domain c = (is_alpha c \<or> is_digit c \<or> c \<in> set ''.-'')"

text \<open>\<open>[-a-zA-Z0-9@:%._\+~#=]\<close>\<close>

definition url_host :: "char \<Rightarrow> bool" where
  "url_host c = (is_alpha c \<or> is_digit c \<or> c \<in> set ''-@:%._+~#='')"

text \<open>\<open>[a-zA-Z0-9()]\<close>\<close>

definition url_tld :: "char \<Rightarrow> bool" where
  "url_tld c = (is_alpha c \<or> is_digit c \<or> c \<in> set ''()'')"

text \<open>\<open>[-a-zA-Z0-9()@:%_\+.~#?&/=]\<close>\<close>

definition url_rest :: "char \<Rightarrow> bool" where
  "url_rest c = (is_alpha c \<or> is_digit c \<or> c \<in> set ''-()@:%_+.~#?&/='')"

text \<open>\<open>[!@#$%^&*(),.?":{}|<>]\<close>\<close>

definition pw_special :: "char \<Rightarrow> bool" where
  "pw_special c = (c \<in> set ''!@#$%^&*(),.?:{}|<>'' \<or> c = CHR 0x22)"

text \<open>\<open>[a-zA-Z0-9._%+-]+@[a-zA-Z0-9.-]+\.[a-zA-Z]{2,}\<close>, shared by the email patterns.\<close>

definition email_core :: "re list" where
  "email_core = [Rep 1 None email_local, Lit CHR ''@'', Rep 1 None email_domain,
                 Lit CHR ''.'', Rep 2 None is_alpha]"

text \<open>\<open>(\+62|62|0)\<close>\<close>

definition phone_prefix :: "re" where
  "phone_prefix = Grp 1 (Alt (lits ''+62'') (Alt (lits ''62'') (Lit CHR ''0'')))"

text \<open>
  \<open>https?://(?:www\.)?[-a-zA-Z0-9@:%._\+~#=]{1,256}\.[a-zA-Z0-9()]{1,6}\b(?:[-a-zA-Z0-9()@:%_\+.~#?&/=]*)\<close>
\<close>

definition url_core :: "re list" where
  "url_core = map Lit ''http'' @ [Rep 0 (Some 1) (\<lambda>c. c = CHR ''s'')] @ map Lit ''://'' @
              [Alt (lits ''www.'') Eps, Rep 1 (Some 256) url_host, Lit CHR ''.'',
               Rep 1 (Some 6) url_tld, WordB, Rep 0 None url_rest]"

section \<open>RegexValidator\<close>

text \<open>\<open>^[a-zA-Z0-9._%+-]+@[a-zA-Z0-9.-]+\.[a-zA-Z]{2,}$\<close>\<close>

definition validate_email_re :: "re" where
  "validate_email_re = cat (Bol # email_core @ [Eol])"

definition validate_email :: "string \<Rightarrow> bool" where
  "validate_email email = (re_match validate_email_re email \<noteq> None)"

text \<open>\<open>(\+62|62|0)[0-9]{9,12}\<close>, shared by the phone validator and extractor.\<close>

definition phone_core :: "re list" where
  "phone_core = [phone_prefix, Rep 9 (Some 12) is_digit]"

text \<open>\<open>^(\+62|62|0)[0-9]{9,12}$\<close>\<close>

definition validate_phone_re :: "re" where
  "validate_phone_re = cat (Bol # phone_core @ [Eol])"

definition validate_phone_id :: "string \<Rightarrow> bool" where
  "validate_phone_id phone = (re_match validate_phone_re phone \<noteq> None)"

text \<open>The URL pattern between \<open>^\<close> and \<open>$\<close>.\<close>

definition validate_url_re :: "re" where
  "validate_url_re = cat (Bol # url_core @ [Eol])"

definition validate_url :: "string \<Rightarrow> bool" where
  "validate_url url = (re_match validate_url_re url \<noteq> None)"

text \<open>\<open>^\d{16}$\<close>, and \<open>\d{16}\<close> between the anchors.\<close>

definition nik_core :: "re list" where
  "nik_core = [Rep 16 (Some 16) is_digit]"

definition validate_nik_re :: "re" where
  "validate_nik_re = cat (Bol # nik_core @ [Eol])"

definition validate_nik :: "string \<Rightarrow> bool" where
  "validate_nik nik = (re_match validate_nik_re nik \<noteq> None)"

record password_report =
  min_length :: bool
  has_uppercase :: bool
  has_lowercase :: bool
  has_digit :: bool
  has_special :: bool

definition validate_password :: "string \<Rightarrow> password_report" where
  "validate_password password =
     \<lparr> min_length = (8 \<le> length password),
       has_uppercase = re_search (Cls is_upper) password,
       has_lowercase = re_search (Cls is_lower) password,
       has_digit = re_search (Cls is_digit) password,
       has_special = re_search (Cls pw_special) password \<rparr>"

section \<open>RegexExtractor\<close>

text \<open>\<open>\b[a-zA-Z0-9._%+-]+@[a-zA-Z0-9.-]+\.[a-zA-Z]{2,}\b\<close>\<close>

definition extract_emails_re :: "re" where
  "extract_emails_re = cat (WordB # email_core @ [WordB])"

definition extract_emails :: "string \<Rightarrow> item list" where
  "extract_emails text = findall extract_emails_re text"

text \<open>\<open>(\+62|62|0)[0-9]{9,12}\<close>\<close>

definition extract_phone_re :: "re" where
  "extract_phone_re = cat phone_core"

definition extract_phone_numbers :: "string \<Rightarrow> item list" where
  "extract_phone_numbers text = findall extract_phone_re text"

text \<open>The URL pattern without anchors.\<close>

definition extract_urls_re :: "re" where
  "extract_urls_re = cat url_core"

definition extract_urls :: "string \<Rightarrow> item list" where
  "extract_urls text = findall extract_urls_re text"

text \<open>\<open>#\w+\<close> and \<open>@\w+\<close>: a marker character and one or more word characters.\<close>

definition tag_re :: "char \<Rightarrow> re" where
  "tag_re t = cat [Lit t, Rep 1 None is_word]"

definition extract_hashtags :: "string \<Rightarrow> item list" where
  "extract_hashtags text = findall (tag_re CHR ''#'') text"

definition extract_mentions :: "string \<Rightarrow> item list" where
  "extract_mentions text = findall (tag_re CHR ''@'') text"

text \<open>\<open>\b\d{1,2}[-/]\d{1,2}[-/]\d{4}\b\<close>\<close>

definition date_sep :: "char \<Rightarrow> bool" where
  "date_sep c = (c \<in> set ''-/'')"

definition extract_dates_re :: "re" where
  "extract_dates_re =
     cat [WordB, Rep 1 (Some 2) is_digit, Cls date_sep, Rep 1 (Some 2) is_digit,
          Cls date_sep, Rep 4 (Some 4) is_digit, WordB]"

definition extract_dates :: "string \<Rightarrow> item list" where
  "extract_dates text = findall extract_dates_re text"

section \<open>RegexReplacer\<close>



text \<open>\<open>(\+62|62|0)(\d{5,8})(\d{4})\<close> with template \<open>\1****\3\<close>\<close>

definition mask_phone_re :: "re" where
  "mask_phone_re =
     cat [phone_prefix, Grp 2 (Rep 5 (Some 8) is_digit), Grp 3 (Rep 4 (Some 4) is_digit)]"

definition mask_phone :: "string \<Rightarrow> re_error + string" where
  "mask_phone text = sub mask_phone_re [TRef 1, TLit ''****'', TRef 3] text"



text \<open>\<open>\s+\<close>\<close>

definition whitespace_re :: "re" where
  "whitespace_re = Rep 1 None is_space"

definition normalize_whitespace :: "string \<Rightarrow> re_error + string" where
  "normalize_whitespace text =
     (case sub whitespace_re [TLit '' ''] text of
        Inl e \<Rightarrow> Inl e
      | Inr t \<Rightarrow> Inr (strip t))"

text \<open>
  \<open>re.compile(re.escape(word), re.IGNORECASE)\<close>: \<open>re.escape\<close> puts a backslash before
  every character that has a meaning in a pattern, so the compiled pattern is the
  sequence of the characters of the word, each compared without regard to case.
\<close>

definition escaped_ci :: "string \<Rightarrow> re" where
  "escaped_ci word = cat (map LitCI word)"


section \<open>Reference descriptions used in the statements\<close>

text \<open>The first element of a list of matcher states, if there is one.\<close>

definition first :: "'a list \<Rightarrow> 'a option" where
  "first xs = (case xs of [] \<Rightarrow> None | x # _ \<Rightarrow> Some x)"

text \<open>
  Hashtags and mentions read off the text directly: every occurrence of the marker
  character that is followed by at least one word character, with the longest run of
  word characters after it.
\<close>

function tags :: "char \<Rightarrow> string \<Rightarrow> string list" where
  "tags t [] = []"
| "tags t (x # xs) =
     (if x = t \<and> takeWhile is_word xs \<noteq> []
      then (x # takeWhile is_word xs) # tags t (dropWhile is_word xs)
      else tags t xs)"
  by pat_completeness auto
termination
  by (relation "measure (\<lambda>(t, s). length s)") (auto simp: length_dropWhile_le less_Suc_eq_le)

text \<open>
  Whitespace collapsed directly: every maximal run of whitespace characters becomes
  one space.
\<close>

function collapse :: "string \<Rightarrow> string" where
  "collapse [] = []"
| "collapse (x # xs) =
     (if is_space x then CHR '' '' # collapse (dropWhile is_space xs) else x # collapse xs)"
  by pat_completeness auto
termination
  by (relation "measure length") (auto simp: length_dropWhile_le less_Suc_eq_le)

text \<open>
  A text in which every whitespace character is a space and is not followed by
  another whitespace character.
\<close>

fun tidy :: "string \<Rightarrow> bool" where
  "tidy [] = True"
| "tidy [x] = (is_space x \<longrightarrow> x = CHR '' '')"
| "tidy (x # y # zs) = ((is_space x \<longrightarrow> x = CHR '' '' \<and> \<not> is_space y) \<and> tidy (y # zs))"

text \<open>
  Censoring one word directly. \<open>ci_prefix w s\<close>: the text \<open>s\<close> starts with the word
  \<open>w\<close>, case disregarded. \<open>censor_one w s\<close> reads \<open>s\<close> from left to right; where the
  word starts it writes as many asterisks as the word has characters and goes on after
  the occurrence, elsewhere it keeps the character.
\<close>

definition ci_prefix :: "string \<Rightarrow> string \<Rightarrow> bool" where
  "ci_prefix w s = (length w \<le> length s \<and> map lower (take (length w) s) = map lower w)"


text \<open>The character before the position \<open>j\<close> characters further on.\<close>

definition after :: "nat \<Rightarrow> char option \<Rightarrow> string \<Rightarrow> char option" where
  "after j p s = (if j = 0 then p else Some (s ! (j - 1)))"

text \<open>The largest count a repetition with upper bound \<open>hi\<close> tries on a run of \<open>k\<close>.\<close>

definition bound :: "nat option \<Rightarrow> nat \<Rightarrow> nat" where
  "bound hi k = (case hi of None \<Rightarrow> k | Some h \<Rightarrow> min h k)"

text \<open>
  \<open>re.fullmatch\<close>: some way of matching the pattern from the start of the string ends
  at its end.
\<close>

definition fullmatch :: "re \<Rightarrow> string \<Rightarrow> bool" where
  "fullmatch r s = list_ex (\<lambda>st. fst (snd st) = []) (m r (None, s, []))"

text \<open>Patterns without \<open>$\<close>, and patterns no part of which matches a newline.\<close>

primrec noeol :: "re \<Rightarrow> bool" where
  "noeol Eps = True"
| "noeol (Lit c) = True"
| "noeol (LitCI c) = True"
| "noeol (Cls c) = True"
| "noeol (Rep lo hi c) = True"
| "noeol (Seq a b) = (noeol a \<and> noeol b)"
| "noeol (Alt a b) = (noeol a \<and> noeol b)"
| "noeol (Grp n r) = noeol r"
| "noeol Bol = True"
| "noeol Eol = False"
| "noeol WordB = True"

primrec nonl :: "re \<Rightarrow> bool" where
  "nonl Eps = True"
| "nonl (Lit c) = (c \<noteq> CHR 0x0A)"
| "nonl (LitCI c) = (lower c \<noteq> CHR 0x0A)"
| "nonl (Cls c) = (\<not> c CHR 0x0A)"
| "nonl (Rep lo hi c) = (\<not> c CHR 0x0A)"
| "nonl (Seq a b) = (nonl a \<and> nonl b)"
| "nonl (Alt a b) = (nonl a \<and> nonl b)"
| "nonl (Grp n r) = nonl r"
| "nonl Bol = True"
| "nonl Eol = True"
| "nonl WordB = True"




text \<open>A pattern all of whose literals and classes lie in the class \<open>C\<close>.\<close>

primrec within :: "(char \<Rightarrow> bool) \<Rightarrow> re \<Rightarrow> bool" where
  "within C Eps = True"
| "within C (Lit c) = C c"
| "within C (LitCI c) = (\<forall>x. lower x = lower c \<longrightarrow> C x)"
| "within C (Cls f) = (\<forall>x. f x \<longrightarrow> C x)"
| "within C (Rep lo hi f) = (\<forall>x. f x \<longrightarrow> C x)"
| "within C (Seq a b) = (within C a \<and> within C b)"
| "within C (Alt a b) = (within C a \<and> within C b)"
| "within C (Grp n r) = within C r"
| "within C Bol = True"
| "within C Eol = True"
| "within C WordB = True"

section \<open>Properties of the matcher\<close>

declare scan.simps [simp del]

lemma first_simps [simp]:
  "first [] = None" "first (x # xs) = Some x"
  by (simp_all add: first_def)

lemma first_map: "first (map f xs) = map_option f (first xs)"
  by (cases xs) simp_all

lemma first_append: "first (xs @ ys) = (case first xs of None \<Rightarrow> first ys | Some x \<Rightarrow> Some x)"
  by (cases xs) simp_all

lemma first_None_iff: "first xs = None \<longleftrightarrow> xs = []"
  by (cases xs) simp_all


lemma concat_map_Eps [simp]: "concat (map (m Eps) sts) = sts"
  by (induction sts) simp_all

lemma concat_map_Eps_comp [simp]: "concat (map (m Eps \<circ> f) xs) = map f xs"
  by (induction xs) simp_all

lemma counts_lt: "k < lo \<Longrightarrow> counts lo k = []"
  by (cases k) auto

lemma counts_ge: "lo \<le> k \<Longrightarrow> counts lo k = k # (if lo < k then counts lo (k - 1) else [])"
  by (cases k) (auto simp: counts_lt)

lemma first_counts: "first (counts lo k) = (if lo \<le> k then Some k else None)"
  by (cases k) auto

lemma advance_append:
  "advance (length u) (p, u @ v, g) = (if u = [] then p else Some (last u), v, g)"
  by (induction u arbitrary: p) auto

lemma advance_takeWhile:
  "advance (length (takeWhile c s)) (p, s, g) =
     (if takeWhile c s = [] then p else Some (last (takeWhile c s)), dropWhile c s, g)"
  using advance_append [of "takeWhile c s" p "dropWhile c s" g] by simp

lemma first_Rep_None:
  "first (m (Rep lo None c) (p, s, g)) =
     (if lo \<le> length (takeWhile c s)
      then Some (if takeWhile c s = [] then p else Some (last (takeWhile c s)), dropWhile c s, g)
      else None)"
  by (simp add: first_map first_counts advance_takeWhile)

subsection \<open>One step of the scan\<close>

lemma scan_Nil_input: "first (m r (p, [], [])) = None \<Longrightarrow> scan r p [] = []"
  by (simp add: scan.simps first_None_iff)

lemma scan_skip:
  "first (m r (p, x # xs, [])) = None \<Longrightarrow> scan r p (x # xs) = Skip x # scan r (Some x) xs"
  by (simp add: scan.simps first_None_iff)

lemma scan_hit:
  assumes "first (m r (p, u @ s', [])) = Some (p', s', g')" and "u \<noteq> []"
  shows "scan r p (u @ s') = Hit u g' # scan r p' s'"
proof -
  obtain sts where "m r (p, u @ s', []) = (p', s', g') # sts"
    using assms(1) by (cases "m r (p, u @ s', [])") simp_all
  then show ?thesis
    using assms(2) by (simp add: scan.simps [of r p "u @ s'"] shorter_def hit_def)
qed


section \<open>Hashtags and mentions\<close>

lemma first_tag_re:
  "first (m (tag_re t) (p, s, [])) =
     (case s of [] \<Rightarrow> None
      | x # xs \<Rightarrow> if x = t \<and> takeWhile is_word xs \<noteq> []
          then Some (Some (last (takeWhile is_word xs)), dropWhile is_word xs, [])
          else None)"
  by (cases "takeWhile is_word (tl s)")
     (auto simp: tag_re_def first_map first_counts advance_takeWhile split: list.split)

lemma items_scan_tag:
  "items 0 (scan (tag_re t) p s) = map Str (tags t s)"
proof (induction t s arbitrary: p rule: tags.induct)
  case (1 t)
  then show ?case by (simp add: scan_Nil_input first_tag_re)
next
  case (2 t x xs)
  let ?r = "tag_re t"
  show ?case
  proof (cases "x = t \<and> takeWhile is_word xs \<noteq> []")
    case True
    have "first (m ?r (p, (x # takeWhile is_word xs) @ dropWhile is_word xs, [])) =
            Some (Some (last (takeWhile is_word xs)), dropWhile is_word xs, [])"
      using True by (simp add: first_tag_re)
    from scan_hit [OF this]
    have "scan ?r p (x # xs) =
            Hit (x # takeWhile is_word xs) [] #
            scan ?r (Some (last (takeWhile is_word xs))) (dropWhile is_word xs)"
      by simp
    then show ?thesis using True 2 by (simp add: item_of_def)
  next
    case False
    then have none: "first (m ?r (p, x # xs, [])) = None"
      by (auto simp: first_tag_re)
    show ?thesis using False 2 by (auto simp: scan_skip [OF none])
  qed
qed

lemma takeWhile_stop_Nil:
  "X = [] \<or> \<not> P (hd X) \<Longrightarrow> takeWhile P X = [] \<and> dropWhile P X = X"
  by (cases X) auto

lemma takeWhile_stop:
  "X = [] \<or> \<not> P (hd X) \<Longrightarrow> takeWhile P (xs @ X) = takeWhile P xs"
  by (induction xs) (auto, cases X, auto)

lemma dropWhile_stop:
  "X = [] \<or> \<not> P (hd X) \<Longrightarrow> dropWhile P (xs @ X) = dropWhile P xs @ X"
  by (induction xs) (auto, cases X, auto)

lemma tags_append:
  "X = [] \<or> \<not> is_word (hd X) \<Longrightarrow> tags t (pre @ X) = tags t pre @ tags t X"
proof (induction t pre rule: tags.induct)
  case (1 t)
  then show ?case by simp
next
  case (2 t x xs)
  then show ?case by (simp add: takeWhile_stop dropWhile_stop)
qed

lemma tags_marker:
  assumes "w \<noteq> []" "\<forall>c\<in>set w. is_word c" "post = [] \<or> \<not> is_word (hd post)"
  shows "tags t (t # w @ post) = (t # w) # tags t post"
proof -
  have "takeWhile is_word (w @ post) = w" "dropWhile is_word (w @ post) = post"
    using assms by (simp_all add: takeWhile_stop_Nil)
  then show ?thesis using assms(1) by simp
qed

lemma tags_in_context:
  assumes "\<not> is_word t" "w \<noteq> []" "\<forall>c\<in>set w. is_word c" "post = [] \<or> \<not> is_word (hd post)"
  shows "tags t (pre @ t # w @ post) = tags t pre @ (t # w) # tags t post"
proof -
  have "t # w @ post = [] \<or> \<not> is_word (hd (t # w @ post))"
    using assms(1) by simp
  from tags_append [OF this] show ?thesis
    using tags_marker [OF assms(2-4)] by simp
qed

lemma not_word_at: "\<not> is_word CHR ''@''"
  by (simp add: is_word_def is_alpha_def is_upper_def is_lower_def is_digit_def code_def)

lemma not_word_hash: "\<not> is_word CHR ''#''"
  by (simp add: is_word_def is_alpha_def is_upper_def is_lower_def is_digit_def code_def)

section \<open>Whitespace\<close>

lemma first_whitespace_re:
  "first (m whitespace_re (p, s, [])) =
     (if takeWhile is_space s \<noteq> []
      then Some (Some (last (takeWhile is_space s)), dropWhile is_space s, [])
      else None)"
  by (auto simp: whitespace_re_def first_map first_counts advance_takeWhile Suc_le_eq)

lemma rebuild_scan_whitespace:
  "rebuild [TLit '' ''] (scan whitespace_re p s) = collapse s"
proof (induction s arbitrary: p rule: collapse.induct)
  case 1
  then show ?case by (simp add: scan_Nil_input first_whitespace_re)
next
  case (2 x xs)
  show ?case
  proof (cases "is_space x")
    case True
    have "first (m whitespace_re (p, (x # takeWhile is_space xs) @ dropWhile is_space xs, [])) =
            Some (Some (last (x # takeWhile is_space xs)), dropWhile is_space xs, [])"
      using True by (simp add: first_whitespace_re)
    from scan_hit [OF this]
    have "scan whitespace_re p (x # xs) =
            Hit (x # takeWhile is_space xs) [] #
            scan whitespace_re (Some (last (x # takeWhile is_space xs))) (dropWhile is_space xs)"
      by simp
    then show ?thesis using True 2 by simp
  next
    case False
    then have none: "first (m whitespace_re (p, x # xs, [])) = None"
      by (simp add: first_whitespace_re)
    show ?thesis using False 2 by (simp add: scan_skip [OF none])
  qed
qed

lemma normalize_whitespace_eq: "normalize_whitespace s = Inr (strip (collapse s))"
  by (simp add: normalize_whitespace_def sub_def whitespace_re_def [symmetric] rebuild_scan_whitespace)

lemma space_is_space: "is_space CHR '' ''"
  by (simp add: is_space_def code_def)

lemma collapse_hd:
  "s = [] \<or> \<not> is_space (hd s) \<Longrightarrow> collapse s = [] \<or> \<not> is_space (hd (collapse s))"
  by (cases s) auto

lemma dropWhile_hd: "dropWhile P s = [] \<or> \<not> P (hd (dropWhile P s))"
  using hd_dropWhile [of P s] by blast

lemma tidy_Cons:
  "tidy (x # t) \<longleftrightarrow> (is_space x \<longrightarrow> x = CHR '' '' \<and> (t = [] \<or> \<not> is_space (hd t))) \<and> tidy t"
  by (cases t) auto

lemma tidy_collapse: "tidy (collapse s)"
proof (induction s rule: collapse.induct)
  case 1
  then show ?case by simp
next
  case (2 x xs)
  then show ?case
    using collapse_hd [OF dropWhile_hd [of is_space xs]]
    by (auto simp: tidy_Cons space_is_space)
qed

lemma collapse_tidy: "tidy t \<Longrightarrow> collapse t = t"
proof (induction t rule: collapse.induct)
  case 1
  then show ?case by simp
next
  case (2 x xs)
  then show ?case
    by (cases xs) (auto simp: tidy_Cons)
qed

lemma tidy_drop: "tidy t \<Longrightarrow> tidy (drop n t)"
proof (induction n arbitrary: t)
  case 0
  then show ?case by simp
next
  case (Suc n)
  then show ?case by (cases t) (auto simp: tidy_Cons)
qed

lemma tidy_take: "tidy t \<Longrightarrow> tidy (take n t)"
proof (induction t arbitrary: n)
  case Nil
  then show ?case by simp
next
  case (Cons x t)
  show ?case
  proof (cases n)
    case 0
    then show ?thesis by simp
  next
    case (Suc k)
    have "take k t = [] \<or> hd (take k t) = hd t"
      by (cases t; cases k) auto
    then show ?thesis using Cons Suc by (auto simp: tidy_Cons)
  qed
qed

lemma dropWhile_is_drop: "dropWhile P s = drop (length (takeWhile P s)) s"
  by (metis append_eq_conv_conj takeWhile_dropWhile_id)

lemma strip_is_slice:
  "\<exists>i j. strip s = take j (drop i s)"
proof -
  let ?a = "dropWhile is_space s"
  have "rev (dropWhile is_space (rev ?a)) = rev (drop (length (takeWhile is_space (rev ?a))) (rev ?a))"
    using dropWhile_is_drop [of is_space "rev ?a"] by simp
  also have "\<dots> = take (length ?a - length (takeWhile is_space (rev ?a))) ?a"
    by (simp add: rev_drop)
  finally show ?thesis
    unfolding strip_def using dropWhile_is_drop [of is_space s] by metis
qed

lemma tidy_strip: "tidy t \<Longrightarrow> tidy (strip t)"
  using strip_is_slice [of t] tidy_take tidy_drop by metis

lemma strip_last: "strip s \<noteq> [] \<Longrightarrow> \<not> is_space (last (strip s))"
  using dropWhile_hd [of is_space "rev (dropWhile is_space s)"]
  by (auto simp: strip_def last_rev)

lemma rev_dropWhile_rev_hd:
  "rev (dropWhile P (rev a)) \<noteq> [] \<Longrightarrow> hd (rev (dropWhile P (rev a))) = hd a"
proof (induction a rule: rev_induct)
  case Nil
  then show ?case by simp
next
  case (snoc x xs)
  then show ?case by (cases xs) (auto split: if_splits)
qed

lemma strip_hd: "strip s \<noteq> [] \<Longrightarrow> \<not> is_space (hd (strip s))"
proof -
  assume ne: "strip s \<noteq> []"
  then have "hd (strip s) = hd (dropWhile is_space s)"
    unfolding strip_def by (rule rev_dropWhile_rev_hd)
  moreover have "dropWhile is_space s \<noteq> []" using ne by (auto simp: strip_def dest: set_dropWhileD)
  ultimately show ?thesis using hd_dropWhile [of is_space s] by metis
qed

lemma strip_fixed:
  "t = [] \<or> (\<not> is_space (hd t) \<and> \<not> is_space (last t)) \<Longrightarrow> strip t = t"
proof (cases t)
  case Nil
  then show ?thesis by (simp add: strip_def)
next
  case (Cons x xs)
  assume "t = [] \<or> (\<not> is_space (hd t) \<and> \<not> is_space (last t))"
  then have a: "\<not> is_space (hd t)" and b: "\<not> is_space (last t)" using Cons by auto
  have "dropWhile is_space t = t" using a Cons by simp
  moreover have "dropWhile is_space (rev t) = rev t"
    using b by (metis dropWhile_eq_self_iff hd_rev)
  ultimately show ?thesis by (simp add: strip_def)
qed

lemma tidy_no_double: "tidy t \<Longrightarrow> t \<noteq> u @ ''  '' @ v"
proof (induction u arbitrary: t)
  case Nil
  then show ?case by (auto simp: space_is_space)
next
  case (Cons a u)
  then show ?case by (cases t) (auto simp: tidy_Cons)
qed

section \<open>Censoring\<close>

lemma ci_prefix_Nil [simp]: "ci_prefix [] s"
  by (simp add: ci_prefix_def)

lemma ci_prefix_Cons_Nil [simp]: "\<not> ci_prefix (c # cs) []"
  by (simp add: ci_prefix_def)

lemma ci_prefix_Cons_Cons [simp]:
  "ci_prefix (c # cs) (x # xs) \<longleftrightarrow> lower x = lower c \<and> ci_prefix cs xs"
  by (auto simp: ci_prefix_def)




lemma ngroups_escaped_ci [simp]: "ngroups (escaped_ci w) = 0"
  by (induction w) (simp_all add: escaped_ci_def)




section \<open>Greedy repetition and backtracking\<close>

lemma set_counts: "j \<in> set (counts lo k) \<longleftrightarrow> lo \<le> j \<and> j \<le> k"
proof (induction k)
  case 0
  then show ?case by auto
next
  case (Suc k)
  then show ?case by (cases "j = Suc k") auto
qed

lemma advance_le:
  "j \<le> length s \<Longrightarrow> advance j (p, s, g) = (after j p s, drop j s, g)"
proof (induction j arbitrary: p s)
  case 0
  then show ?case by (simp add: after_def)
next
  case (Suc j)
  then show ?case by (cases s) (auto simp: after_def nth_Cons')
qed

lemma m_Rep:
  "m (Rep lo hi c) (p, s, g) =
     map (\<lambda>j. (after j p s, drop j s, g)) (counts lo (bound hi (length (takeWhile c s))))"
proof -
  have "bound hi (length (takeWhile c s)) \<le> length s"
    using length_takeWhile_le [of c s] by (cases hi) (auto simp: bound_def)
  then have "\<forall>j\<in>set (counts lo (bound hi (length (takeWhile c s)))).
               advance j (p, s, g) = (after j p s, drop j s, g)"
    by (auto simp: set_counts advance_le)
  then show ?thesis
    by (cases hi) (simp_all add: bound_def cong: map_cong)
qed

declare m.simps(5) [simp del]

lemma m_Grp_Rep:
  "m (Grp n (Rep lo hi c)) (p, s, g) =
     map (\<lambda>j. (after j p s, drop j s, (n, take j s) # g))
       (counts lo (bound hi (length (takeWhile c s))))"
proof -
  have le: "bound hi (length (takeWhile c s)) \<le> length s"
    using length_takeWhile_le [of c s] by (cases hi) (auto simp: bound_def)
  have "m (Grp n (Rep lo hi c)) (p, s, g) =
      map (\<lambda>(p', s', g'). (p', s', (n, take (length s - length s') s) # g'))
        (m (Rep lo hi c) (p, s, g))"
    by simp
  also have "\<dots> = map (\<lambda>j. (after j p s, drop j s, (n, take (length s - length (drop j s)) s) # g))
       (counts lo (bound hi (length (takeWhile c s))))"
    by (simp only: m_Rep map_map comp_def prod.case)
  also have "\<dots> = map (\<lambda>j. (after j p s, drop j s, (n, take j s) # g))
       (counts lo (bound hi (length (takeWhile c s))))"
    using le by (intro map_cong) (auto simp: set_counts)
  finally show ?thesis .
qed

lemma first_concat_counts:
  assumes "lo \<le> j0" and "j0 \<le> k" and "\<And>j. j0 < j \<Longrightarrow> j \<le> k \<Longrightarrow> F j = []" and "F j0 \<noteq> []"
  shows "first (concat (map F (counts lo k))) = first (F j0)"
  using assms(2,3)
proof (induction k)
  case 0
  then show ?case using assms(1,4) by (cases "F 0") (simp_all add: first_append)
next
  case (Suc k)
  show ?case
  proof (cases "j0 = Suc k")
    case True
    then show ?thesis using assms(1,4) by (cases "F (Suc k)") (simp_all add: first_append)
  next
    case False
    then have "j0 \<le> k" "F (Suc k) = []" using Suc.prems by auto
    then show ?thesis using Suc assms(1) by simp
  qed
qed

lemma takeWhile_all: "\<forall>x\<in>set s. c x \<Longrightarrow> takeWhile c s = s"
  by (simp add: takeWhile_eq_all_conv)

lemma after_last: "s \<noteq> [] \<Longrightarrow> after (length s) p s = Some (last s)"
  by (simp add: after_def last_conv_nth)

lemma m_Seq_Eps: "m (Seq b Eps) = m b"
  by (rule ext) simp

lemma m_cat2: "m (cat [a, b]) st = concat (map (m b) (m a st))"
  by (simp add: m_Seq_Eps)

section \<open>Masking phone numbers\<close>

lemma m_phone_prefix:
  assumes "p \<in> {''+62'', ''62'', ''0''}"
  shows "m phone_prefix (q, p @ d, g) = [(Some (last p), d, (1, p) # g)]"
  using assms by (auto simp: phone_prefix_def lits_def)

lemma m_mask_tail:
  assumes d: "\<forall>c\<in>set d. is_digit c" and n: "9 \<le> length d" "length d \<le> 12"
  shows "first (m (cat [Grp 2 (Rep 5 (Some 8) is_digit), Grp 3 (Rep 4 (Some 4) is_digit)]) (q, d, g)) =
         Some (Some (last d), [], (3, drop (length d - 4) d) # (2, take (length d - 4) d) # g)"
proof -
  let ?n = "length d"
  let ?G3 = "Grp 3 (Rep 4 (Some 4) is_digit)"
  let ?F = "\<lambda>j. m ?G3 (after j q d, drop j d, (2, take j d) # g)"
  have tw: "takeWhile is_digit d = d" using d by (rule takeWhile_all)
  have tw': "takeWhile is_digit (drop j d) = drop j d" for j
    using d by (intro takeWhile_all) (auto dest: in_set_dropD)
  have F: "?F j = map (\<lambda>i. (after i (after j q d) (drop j d), drop i (drop j d),
                 (3, take i (drop j d)) # (2, take j d) # g))
              (counts 4 (min 4 (?n - j)))" for j
    by (simp only: m_Grp_Rep tw' bound_def option.case length_drop)
  have a: "5 \<le> ?n - 4" "?n - 4 \<le> min 8 ?n" using n by auto
  have b: "?F j = []" if "?n - 4 < j" "j \<le> min 8 ?n" for j
    using that by (simp only: F) (simp add: counts_lt)
  have "min 4 (?n - (?n - 4)) = 4" using n by simp
  then have "?F (?n - 4) = map (\<lambda>i. (after i (after (?n - 4) q d) (drop (?n - 4) d), drop i (drop (?n - 4) d),
                 (3, take i (drop (?n - 4) d)) # (2, take (?n - 4) d) # g)) (counts 4 4)"
    by (simp only: F)
  moreover have "counts 4 4 = [4]" by (simp add: eval_nat_numeral)
  moreover have "(after 4 (after (?n - 4) q d) (drop (?n - 4) d), drop 4 (drop (?n - 4) d),
                 (3, take 4 (drop (?n - 4) d)) # (2, take (?n - 4) d) # g) =
                 (Some (last d), [], (3, drop (?n - 4) d) # (2, take (?n - 4) d) # g)"
  proof -
    have "d \<noteq> []" using n by auto
    then have "last d = d ! (?n - 1)" by (rule last_conv_nth)
    then show ?thesis using n by (simp add: after_def)
  qed
  ultimately have c: "?F (?n - 4) = [(Some (last d), [], (3, drop (?n - 4) d) # (2, take (?n - 4) d) # g)]"
    by (simp only: list.map)
  have "m (cat [Grp 2 (Rep 5 (Some 8) is_digit), ?G3]) (q, d, g) =
          concat (map ?F (counts 5 (min 8 ?n)))"
    by (simp only: m_cat2 m_Grp_Rep tw bound_def option.case map_map comp_def)
  moreover have "first (concat (map ?F (counts 5 (min 8 ?n)))) = first (?F (?n - 4))"
    using a b c by (intro first_concat_counts) auto
  ultimately show ?thesis
    using c by simp
qed


lemma first_mask_phone_re:
  assumes "p \<in> {''+62'', ''62'', ''0''}" and "\<forall>c\<in>set d. is_digit c"
    and "9 \<le> length d" and "length d \<le> 12"
  shows "first (m mask_phone_re (q, p @ d, [])) =
         Some (Some (last d), [], [(3, drop (length d - 4) d), (2, take (length d - 4) d), (1, p)])"
proof -
  have "m mask_phone_re (q, p @ d, []) =
          m (cat [Grp 2 (Rep 5 (Some 8) is_digit), Grp 3 (Rep 4 (Some 4) is_digit)])
            (Some (last p), d, [(1, p)])"
    unfolding mask_phone_re_def cat.simps(2) [of phone_prefix] m.simps(6)
      m_phone_prefix [OF assms(1)] by simp
  then show ?thesis using m_mask_tail [OF assms(2-4)] by simp
qed

lemma m_mask_phone_re_Nil: "m mask_phone_re (q, [], []) = []"
  by (simp add: mask_phone_re_def phone_prefix_def lits_def)

lemmas class_defs =
  is_word_def is_alpha_def is_upper_def is_lower_def is_digit_def is_space_def code_def

section \<open>Anchors and the trailing newline\<close>

lemma m_suffix:
  "(p', s', g') \<in> set (m r (p, s, g)) \<Longrightarrow> \<exists>u. s = u @ s'"
proof (induction r arbitrary: p s g p' s' g')
  case (Rep lo hi c)
  then obtain j where "(p', s', g') = (after j p s, drop j s, g)"
    by (auto simp: m_Rep)
  then have "s = take j s @ s'" by simp
  then show ?case by blast
next
  case (Seq a b)
  then obtain q t h where "(q, t, h) \<in> set (m a (p, s, g))" "(p', s', g') \<in> set (m b (q, t, h))"
    by auto
  then show ?case using Seq.IH by (metis append.assoc)
next
  case (Grp n r)
  then show ?case by auto
qed (auto split: list.splits if_splits)

lemma not_word_nl: "\<not> is_word CHR 0x0A"
  by (simp add: class_defs)

lemma word_after_snoc: "\<not> is_word x \<Longrightarrow> word_after (s @ [x]) = word_after s"
  by (cases s) (simp_all add: word_after_def)

lemma m_extend:
  assumes "\<not> is_word x"
  shows "noeol r \<Longrightarrow> (p', s', g') \<in> set (m r (p, s, g)) \<Longrightarrow>
         (p', s' @ [x], g') \<in> set (m r (p, s @ [x], g))"
proof (induction r arbitrary: p s g p' s' g')
  case (Rep lo hi c)
  let ?k = "bound hi (length (takeWhile c s))"
  let ?k' = "bound hi (length (takeWhile c (s @ [x])))"
  from Rep obtain j where j: "lo \<le> j" "j \<le> ?k" "(p', s', g') = (after j p s, drop j s, g)"
    by (auto simp: m_Rep set_counts)
  have "length (takeWhile c s) \<le> length (takeWhile c (s @ [x]))"
    by (induction s) auto
  then have "?k \<le> ?k'" by (cases hi) (auto simp: bound_def)
  moreover have "j \<le> length s"
    using j(2) length_takeWhile_le [of c s] by (cases hi) (auto simp: bound_def)
  then have "(after j p (s @ [x]), drop j (s @ [x]), g) = (p', s' @ [x], g')"
    using j(3) by (auto simp: after_def nth_append)
  ultimately show ?case using j(1,2) by (force simp: m_Rep set_counts)
next
  case (Seq a b)
  then obtain q t h where "(q, t, h) \<in> set (m a (p, s, g))" "(p', s', g') \<in> set (m b (q, t, h))"
    by auto
  then have "(q, t @ [x], h) \<in> set (m a (p, s @ [x], g))"
    "(p', s' @ [x], g') \<in> set (m b (q, t @ [x], h))"
    using Seq by auto
  then show ?case by force
next
  case (Grp n r)
  then obtain h where h: "(p', s', h) \<in> set (m r (p, s, g))"
    "g' = (n, take (length s - length s') s) # h"
    by auto
  then have "(p', s' @ [x], h) \<in> set (m r (p, s @ [x], g))" using Grp by auto
  moreover have "take (length (s @ [x]) - length (s' @ [x])) (s @ [x]) = take (length s - length s') s"
    by simp
  ultimately show ?case using h(2) by force
next
  case WordB
  then show ?case using assms by (auto simp: word_after_snoc split: if_splits)
qed (auto split: list.splits if_splits)

text \<open>A pattern that matches no newline stops before the first newline of the input.\<close>

lemma takeWhile_stops_at:
  "\<not> c x \<Longrightarrow> length (takeWhile c (u @ x # t)) \<le> length u"
  by (induction u) auto

lemma m_nonl:
  "nonl r \<Longrightarrow> (p', s', g') \<in> set (m r (p, u @ CHR 0x0A # t, g)) \<Longrightarrow>
   \<exists>w v. u = w @ v \<and> s' = v @ CHR 0x0A # t"
proof (induction r arbitrary: p u g p' s' g')
  case (Rep lo hi c)
  let ?s = "u @ CHR 0x0A # t"
  from Rep obtain j where j: "j \<le> bound hi (length (takeWhile c ?s))" "s' = drop j ?s"
    by (auto simp: m_Rep set_counts)
  have "length (takeWhile c ?s) \<le> length u"
    using Rep.prems(1) by (intro takeWhile_stops_at) simp
  then have "j \<le> length u" using j(1) by (cases hi) (auto simp: bound_def)
  then have "u = take j u @ drop j u" "s' = drop j u @ CHR 0x0A # t"
    using j(2) by simp_all
  then show ?case by blast
next
  case (Seq a b)
  then obtain q t' h where mid: "(q, t', h) \<in> set (m a (p, u @ CHR 0x0A # t, g))"
    "(p', s', g') \<in> set (m b (q, t', h))"
    by auto
  obtain w1 v1 where 1: "u = w1 @ v1" "t' = v1 @ CHR 0x0A # t"
    using Seq.IH(1) [OF _ mid(1)] Seq.prems(1) by auto
  obtain w2 v2 where 2: "v1 = w2 @ v2" "s' = v2 @ CHR 0x0A # t"
    using Seq.IH(2) [OF _ mid(2) [unfolded 1(2)]] Seq.prems(1) by auto
  have "u = (w1 @ w2) @ v2" using 1(1) 2(1) by simp
  then show ?case using 2(2) by blast
next
  case (Alt a b)
  then show ?case by auto
next
  case (Grp n r)
  then obtain h where "(p', s', h) \<in> set (m r (p, u @ CHR 0x0A # t, g))" by auto
  then show ?case using Grp.IH Grp.prems(1) by simp
next
  case (Lit c)
  then show ?case by (cases u) (auto split: if_splits)
next
  case (LitCI c)
  have "lower CHR 0x0A = CHR 0x0A" by (simp add: lower_def is_upper_def code_def)
  then show ?case using LitCI by (cases u) (auto split: if_splits)
next
  case (Cls c)
  then show ?case by (cases u) (auto split: if_splits)
next
  case Eps
  then show ?case by auto
next
  case Bol
  then show ?case by (auto split: if_splits)
next
  case Eol
  then have "s' = u @ CHR 0x0A # t" by (simp split: if_splits)
  then show ?case by blast
next
  case WordB
  then show ?case by (auto split: if_splits)
qed


lemma concat_map_concat_map:
  "concat (map f (concat (map g xs))) = concat (map (\<lambda>x. concat (map f (g x))) xs)"
  by (induction xs) simp_all

lemma m_cat_append:
  "m (cat (xs @ ys)) st = concat (map (m (cat ys)) (m (cat xs) st))"
proof (induction xs arbitrary: st)
  case Nil
  then show ?case by simp
next
  case (Cons x xs)
  have "m (cat ((x # xs) @ ys)) st = concat (map (\<lambda>t. m (cat (xs @ ys)) t) (m x st))"
    by simp
  also have "\<dots> = concat (map (\<lambda>t. concat (map (m (cat ys)) (m (cat xs) t))) (m x st))"
    by (simp only: Cons)
  also have "\<dots> = concat (map (m (cat ys)) (m (cat (x # xs)) st))"
    by (simp add: concat_map_concat_map)
  finally show ?case .
qed

lemma re_match_iff: "re_match r s \<noteq> None \<longleftrightarrow> m r (None, s, []) \<noteq> []"
  by (simp add: re_match_def split: list.split)

lemma anchored_iff:
  "re_match (cat (Bol # rs @ [Eol])) s \<noteq> None \<longleftrightarrow>
   (\<exists>p' s' g'. (p', s', g') \<in> set (m (cat rs) (None, s, [])) \<and> (s' = [] \<or> s' = [CHR 0x0A]))"
proof -
  have "m (cat (Bol # rs @ [Eol])) (None, s, []) =
          concat (map (m (cat [Eol])) (m (cat rs) (None, s, [])))"
    using m_cat_append [of rs "[Eol]" "(None, s, [])"] by simp
  moreover have "m (cat [Eol]) st \<noteq> [] \<longleftrightarrow> fst (snd st) = [] \<or> fst (snd st) = [CHR 0x0A]" for st
    by (cases st) simp
  ultimately have "re_match (cat (Bol # rs @ [Eol])) s \<noteq> None \<longleftrightarrow>
      (\<exists>st\<in>set (m (cat rs) (None, s, [])). fst (snd st) = [] \<or> fst (snd st) = [CHR 0x0A])"
    unfolding re_match_iff by (simp del: cat.simps m.simps)
  then show ?thesis by force
qed

lemma fullmatch_iff:
  "fullmatch r s \<longleftrightarrow> (\<exists>p' g'. (p', [], g') \<in> set (m r (None, s, [])))"
  by (force simp: fullmatch_def list_ex_iff)

lemma newline_accepted:
  assumes "noeol (cat rs)" and "fullmatch (cat rs) v"
  shows "re_match (cat (Bol # rs @ [Eol])) (v @ [CHR 0x0A]) \<noteq> None"
proof -
  obtain p' g' where "(p', [], g') \<in> set (m (cat rs) (None, v, []))"
    using assms(2) by (auto simp: fullmatch_iff)
  from m_extend [OF not_word_nl assms(1) this]
  show ?thesis unfolding anchored_iff by auto
qed

lemma newline_not_full:
  assumes "nonl r"
  shows "\<not> fullmatch r (v @ [CHR 0x0A])"
proof
  assume "fullmatch r (v @ [CHR 0x0A])"
  then obtain p' g' where "(p', [], g') \<in> set (m r (None, v @ [CHR 0x0A], []))"
    by (auto simp: fullmatch_iff)
  from m_nonl [OF assms this] show False by simp
qed

lemma noeol_cores:
  "noeol (cat email_core)" "noeol (cat phone_core)" "noeol (cat url_core)" "noeol (cat nik_core)"
  by (simp_all add: email_core_def phone_core_def url_core_def nik_core_def phone_prefix_def lits_def)

lemma nonl_cores:
  "nonl (cat email_core)" "nonl (cat phone_core)" "nonl (cat url_core)" "nonl (cat nik_core)"
  by (simp_all add: email_core_def phone_core_def url_core_def nik_core_def phone_prefix_def lits_def
      email_local_def email_domain_def url_host_def url_tld_def url_rest_def class_defs)

section \<open>Masking email addresses\<close>




lemma m_no_groups:
  "ngroups r = 0 \<Longrightarrow> (p', s', g') \<in> set (m r (p, s, g)) \<Longrightarrow> g' = g"
proof (induction r arbitrary: p s g p' s' g')
  case (Rep lo hi c)
  then show ?case by (auto simp: m_Rep)
next
  case (Seq a b)
  then obtain q t h where "(q, t, h) \<in> set (m a (p, s, g))" "(p', s', g') \<in> set (m b (q, t, h))"
    by auto
  then show ?case using Seq by (metis add_is_0 ngroups.simps(6))
qed (auto split: list.splits if_splits)



lemma m_Seq_cong: "m b = m b' \<Longrightarrow> m (Seq a b) = m (Seq a b')"
  by (rule ext) simp



lemma not_local_at: "\<not> email_local CHR ''@''"
  by (simp add: email_local_def class_defs)

lemma take_le_takeWhile:
  "j \<le> length (takeWhile P s) \<Longrightarrow> take j s = take j (takeWhile P s)"
proof (induction s arbitrary: j)
  case Nil
  then show ?case by simp
next
  case (Cons x xs)
  then show ?case by (cases j) (auto split: if_splits)
qed





lemma ngroups_extract_emails_re: "ngroups extract_emails_re = 0"
  by (simp add: extract_emails_re_def email_core_def)



section \<open>Extraction from a validated text\<close>

lemma take_within:
  "j \<le> length (takeWhile f s) \<Longrightarrow> \<forall>c\<in>set (take j s). f c"
  using take_le_takeWhile [of j f s] by (metis in_set_takeD set_takeWhileD)

lemma m_within:
  "within C r \<Longrightarrow> (p', s', g') \<in> set (m r (p, s, g)) \<Longrightarrow>
   \<exists>u. s = u @ s' \<and> (\<forall>c\<in>set u. C c)"
proof (induction r arbitrary: p s g p' s' g')
  case (Rep lo hi f)
  then obtain j where j: "j \<le> bound hi (length (takeWhile f s))" "s' = drop j s"
    by (auto simp: m_Rep set_counts)
  then have "j \<le> length (takeWhile f s)" by (cases hi) (auto simp: bound_def)
  then have "\<forall>c\<in>set (take j s). C c" using take_within Rep.prems(1) by fastforce
  moreover have "s = take j s @ s'" using j(2) by simp
  ultimately show ?case by blast
next
  case (Seq a b)
  then obtain q t h where mid: "(q, t, h) \<in> set (m a (p, s, g))" "(p', s', g') \<in> set (m b (q, t, h))"
    by auto
  obtain u1 where 1: "s = u1 @ t" "\<forall>c\<in>set u1. C c"
    using Seq.IH(1) [OF _ mid(1)] Seq.prems(1) by auto
  obtain u2 where 2: "t = u2 @ s'" "\<forall>c\<in>set u2. C c"
    using Seq.IH(2) [OF _ mid(2)] Seq.prems(1) by auto
  have "s = (u1 @ u2) @ s'" "\<forall>c\<in>set (u1 @ u2). C c" using 1 2 by auto
  then show ?case by blast
next
  case (Alt a b)
  then show ?case by auto
next
  case (Grp n r)
  then obtain h where "(p', s', h) \<in> set (m r (p, s, g))" by auto
  then show ?case using Grp.IH Grp.prems(1) by simp
next
  case (Lit c)
  then show ?case by (cases s) (auto split: if_splits)
next
  case (LitCI c)
  then show ?case by (cases s) (auto split: if_splits)
next
  case (Cls f)
  then show ?case by (cases s) (auto split: if_splits)
next
  case Eps
  then show ?case by auto
next
  case Bol
  then show ?case by (auto split: if_splits)
next
  case Eol
  then show ?case by (auto split: if_splits)
next
  case WordB
  then show ?case by (auto split: if_splits)
qed

lemma anchored_full:
  assumes "re_match (cat (Bol # rs @ [Eol])) s \<noteq> None" and "s = [] \<or> last s \<noteq> CHR 0x0A"
  shows "\<exists>p' g'. (p', [], g') \<in> set (m (cat rs) (None, s, []))"
proof -
  obtain p' s' g' where r: "(p', s', g') \<in> set (m (cat rs) (None, s, []))"
    "s' = [] \<or> s' = [CHR 0x0A]"
    using assms(1) unfolding anchored_iff by blast
  obtain u where "s = u @ s'" using m_suffix [OF r(1)] by blast
  then have "s' = []" using r(2) assms(2) by auto
  then show ?thesis using r(1) by blast
qed

lemma within_url_core: "within url_rest (cat url_core)"
  by (simp add: url_core_def lits_def url_rest_def url_host_def url_tld_def class_defs)

lemma first_Rep_all:
  assumes "\<forall>c\<in>set t. f c"
  shows "\<exists>q. first (m (cat [Rep 0 None f]) (p, t, g)) = Some (q, [], g)"
proof -
  show ?thesis
    using assms by (simp add: takeWhile_all m_Rep bound_def first_map first_counts)
qed

lemma url_core_split:
  "url_core = butlast url_core @ [Rep 0 None url_rest]"
  by (simp add: url_core_def)

lemma first_extract_urls_re:
  assumes "validate_url s" and "s = [] \<or> last s \<noteq> CHR 0x0A"
  shows "\<exists>q. first (m extract_urls_re (None, s, [])) = Some (q, [], [])"
proof -
  let ?P = "butlast url_core" and ?R = "Rep 0 None url_rest"
  obtain p' g' where full: "(p', [], g') \<in> set (m (cat url_core) (None, s, []))"
    using anchored_full [of url_core s] assms
    by (auto simp: validate_url_def validate_url_re_def simp del: cat.simps)
  obtain u where "s = u @ []" "\<forall>c\<in>set u. url_rest c"
    using m_within [OF within_url_core full] by blast
  then have all: "\<forall>c\<in>set s. url_rest c" by simp
  have split: "m (cat url_core) (None, s, []) = concat (map (m (cat [?R])) (m (cat ?P) (None, s, [])))"
    using m_cat_append [of ?P "[?R]" "(None, s, [])"] url_core_split by simp
  then have "m (cat ?P) (None, s, []) \<noteq> []" using full by auto
  then obtain q0 qs where q0: "m (cat ?P) (None, s, []) = q0 # qs"
    by (cases "m (cat ?P) (None, s, [])") auto
  obtain p0 t0 g0 where q0': "q0 = (p0, t0, g0)" by (cases q0)
  have in0: "(p0, t0, g0) \<in> set (m (cat ?P) (None, s, []))" using q0 q0' by simp
  have "ngroups (cat ?P) = 0" by (simp add: url_core_def lits_def)
  then have g0: "g0 = []" using m_no_groups in0 by blast
  obtain w where "s = w @ t0" using m_suffix [OF in0] by blast
  then have "\<forall>c\<in>set t0. url_rest c" using all by auto
  then obtain q where "first (m (cat [?R]) (p0, t0, g0)) = Some (q, [], g0)"
    using first_Rep_all by blast
  then have "first (m (cat url_core) (None, s, [])) = Some (q, [], [])"
    unfolding split q0 q0' g0 by (simp add: first_append del: cat.simps m.simps)
  then show ?thesis by (auto simp: extract_urls_re_def)
qed


lemma m_url_Nil: "m extract_urls_re (q, [], []) = []"
  by (simp add: extract_urls_re_def url_core_def)

lemma extract_urls_whole:
  assumes "validate_url s" and "last s \<noteq> CHR 0x0A"
  shows "extract_urls s = [Str s]"
proof -
  obtain q where f: "first (m extract_urls_re (None, s @ [], [])) = Some (q, [], [])"
    using first_extract_urls_re [OF assms(1)] assms(2) by auto
  have ne: "s \<noteq> []" using f by (auto simp: m_url_Nil)
  have "scan extract_urls_re None s = [Hit s []]"
    using scan_hit [OF f ne] by (simp add: scan_Nil_input m_url_Nil)
  moreover have "ngroups extract_urls_re = 0"
    by (simp add: extract_urls_re_def url_core_def lits_def)
  ultimately show ?thesis by (simp add: extract_urls_def findall_def item_of_def)
qed

text \<open>The shape of a string the email validator accepts.\<close>

lemma in_m_Rep:
  "(p', s', g') \<in> set (m (Rep lo hi f) (p, s, g)) \<longleftrightarrow>
   (\<exists>j. lo \<le> j \<and> j \<le> bound hi (length (takeWhile f s)) \<and>
        p' = after j p s \<and> s' = drop j s \<and> g' = g)"
  by (auto simp: m_Rep set_counts)

lemma in_m_Lit:
  "(p', s', g') \<in> set (m (Lit c) (p, s, g)) \<longleftrightarrow> (s = c # s' \<and> p' = Some c \<and> g' = g)"
  by (cases s) auto

lemma in_m_Seq:
  "st' \<in> set (m (Seq a b) st) \<longleftrightarrow> (\<exists>mid\<in>set (m a st). st' \<in> set (m b mid))"
  by simp

lemma email_shape:
  assumes "(p', [], g') \<in> set (m (cat email_core) (p, s, g))"
  shows "\<exists>L D T. s = L @ CHR ''@'' # D @ CHR ''.'' # T
     \<and> L \<noteq> [] \<and> (\<forall>c\<in>set L. email_local c)
     \<and> D \<noteq> [] \<and> (\<forall>c\<in>set D. email_domain c)
     \<and> 2 \<le> length T \<and> (\<forall>c\<in>set T. is_alpha c)"
proof -
  let ?R1 = "Rep 1 None email_local" and ?R2 = "Rep 1 None email_domain"
  let ?R3 = "Rep 2 None is_alpha"
  have "cat email_core = Seq ?R1 (Seq (Lit CHR ''@'') (Seq ?R2 (Seq (Lit CHR ''.'') (Seq ?R3 Eps))))"
    by (simp add: email_core_def)
  moreover have "m (Seq ?R1 (Seq (Lit CHR ''@'') (Seq ?R2 (Seq (Lit CHR ''.'') (Seq ?R3 Eps))))) =
      m (Seq ?R1 (Seq (Lit CHR ''@'') (Seq ?R2 (Seq (Lit CHR ''.'') ?R3))))"
    by (intro m_Seq_cong m_Seq_Eps)
  ultimately have "(p', [], g') \<in> set (m (Seq ?R1 (Seq (Lit CHR ''@'') (Seq ?R2 (Seq (Lit CHR ''.'') ?R3)))) (p, s, g))"
    using assms by (simp only:)
  then obtain p1 s1 g1 p2 s2 g2 p3 s3 g3 p4 s4 g4 where
    1: "(p1, s1, g1) \<in> set (m ?R1 (p, s, g))" and
    2: "(p2, s2, g2) \<in> set (m (Lit CHR ''@'') (p1, s1, g1))" and
    3: "(p3, s3, g3) \<in> set (m ?R2 (p2, s2, g2))" and
    4: "(p4, s4, g4) \<in> set (m (Lit CHR ''.'') (p3, s3, g3))" and
    5: "(p', [], g') \<in> set (m ?R3 (p4, s4, g4))"
    unfolding in_m_Seq by (metis prod_cases3)
  from 1 obtain j where j: "1 \<le> j" "j \<le> length (takeWhile email_local s)" "s1 = drop j s"
    unfolding in_m_Rep by (auto simp: bound_def)
  from 2 have s1: "s1 = CHR ''@'' # s2" unfolding in_m_Lit by simp
  from 3 obtain i where i: "1 \<le> i" "i \<le> length (takeWhile email_domain s2)" "s3 = drop i s2"
    unfolding in_m_Rep by (auto simp: bound_def)
  from 4 have s3: "s3 = CHR ''.'' # s4" unfolding in_m_Lit by simp
  from 5 obtain k where k: "2 \<le> k" "k \<le> length (takeWhile is_alpha s4)" "[] = drop k s4"
    unfolding in_m_Rep by (auto simp: bound_def)
  have T: "2 \<le> length s4" "\<forall>c\<in>set s4. is_alpha c"
  proof -
    have le: "length s4 \<le> k" using k(3) by simp
    then show "2 \<le> length s4"
      using k(1,2) length_takeWhile_le [of is_alpha s4] by auto
    have "\<forall>c\<in>set (take k s4). is_alpha c" using k(2) by (rule take_within)
    then show "\<forall>c\<in>set s4. is_alpha c" using le by simp
  qed
  have "s = take j s @ drop j s" by simp
  then have a: "s = take j s @ CHR ''@'' # s2" unfolding j(3) [symmetric] s1 .
  have "s2 = take i s2 @ drop i s2" by simp
  then have b: "s2 = take i s2 @ CHR ''.'' # s4" unfolding i(3) [symmetric] s3 .
  have "s = take j s @ CHR ''@'' # take i s2 @ CHR ''.'' # s4" using a b by simp
  moreover have "take j s \<noteq> []" using j(1,2) by auto
  moreover have "take i s2 \<noteq> []" using i(1,2) by auto
  moreover have "\<forall>c\<in>set (take j s). email_local c" using j(2) by (rule take_within)
  moreover have "\<forall>c\<in>set (take i s2). email_domain c" using i(2) by (rule take_within)
  ultimately show ?thesis using T by blast
qed


lemma first_Some_ne: "first xs = Some x \<Longrightarrow> xs \<noteq> []"
  by (cases xs) simp_all

lemma m_Seq_single: "m a st = [st'] \<Longrightarrow> m (Seq a b) st = m b st'"
  by simp

lemma first_Seq_Rep:
  assumes "lo \<le> j0" and "j0 \<le> bound hi (length (takeWhile f s))"
    and "\<And>j. j0 < j \<Longrightarrow> j \<le> bound hi (length (takeWhile f s)) \<Longrightarrow>
           m r (after j p s, drop j s, g) = []"
    and "m r (after j0 p s, drop j0 s, g) \<noteq> []"
  shows "first (m (Seq (Rep lo hi f) r) (p, s, g)) = first (m r (after j0 p s, drop j0 s, g))"
proof -
  let ?F = "\<lambda>j. m r (after j p s, drop j s, g)"
  have "m (Seq (Rep lo hi f) r) (p, s, g) =
          concat (map ?F (counts lo (bound hi (length (takeWhile f s)))))"
    by (simp only: m.simps(6) m_Rep map_map comp_def)
  moreover have "first (concat (map ?F (counts lo (bound hi (length (takeWhile f s)))))) = first (?F j0)"
    using assms by (intro first_concat_counts) auto
  ultimately show ?thesis by simp
qed

lemma first_Seq_Rep_top:
  assumes "\<forall>c\<in>set u. f c" and "t = [] \<or> \<not> f (hd t)" and "lo \<le> length u" and "u \<noteq> []"
    and "m r (Some (last u), t, g) \<noteq> []"
  shows "first (m (Seq (Rep lo None f) r) (p, u @ t, g)) = first (m r (Some (last u), t, g))"
proof -
  have tw: "takeWhile f (u @ t) = u"
    using assms(1,2) by (simp add: takeWhile_append2 takeWhile_stop_Nil)
  have a: "after (length u) p (u @ t) = Some (last u)"
    using assms(4) by (simp add: after_def nth_append last_conv_nth)
  have "first (m (Seq (Rep lo None f) r) (p, u @ t, g)) =
          first (m r (after (length u) p (u @ t), drop (length u) (u @ t), g))"
    using assms(3,5) a by (intro first_Seq_Rep) (simp_all add: tw bound_def)
  then show ?thesis using a by simp
qed

lemma m_Lit_drop_Nil:
  assumes "\<forall>c\<in>set T. c \<noteq> x"
  shows "m (Seq (Lit x) r) (p, drop n T, g) = []"
proof (cases "drop n T")
  case Nil
  then show ?thesis by simp
next
  case (Cons y ys)
  then have "y \<in> set T" by (metis in_set_dropD list.set_intros(1))
  then show ?thesis using assms Cons by auto
qed

lemma alpha_word: "is_alpha c \<Longrightarrow> is_word c"
  by (simp add: is_word_def)

lemma alpha_domain: "is_alpha c \<Longrightarrow> email_domain c"
  by (simp add: email_domain_def)

lemma alpha_not_dot: "is_alpha c \<Longrightarrow> c \<noteq> CHR ''.''"
  by (auto simp: class_defs)

lemma dot_domain: "email_domain CHR ''.''"
  by (simp add: email_domain_def)

lemma first_extract_emails_re:
  assumes L: "L \<noteq> []" "\<forall>c\<in>set L. email_local c" and D: "D \<noteq> []" "\<forall>c\<in>set D. email_domain c"
    and T: "2 \<le> length T" "\<forall>c\<in>set T. is_alpha c" and w: "is_word (hd L)"
  shows "first (m extract_emails_re (None, L @ CHR ''@'' # D @ CHR ''.'' # T, [])) =
         Some (Some (last T), [], [])"
proof -
  let ?R1 = "Rep 1 None email_local" and ?R2 = "Rep 1 None email_domain"
  let ?R3 = "Rep 2 None is_alpha"
  let ?X3 = "Seq WordB Eps"
  let ?X2 = "Seq (Lit CHR ''.'') (Seq ?R3 ?X3)"
  let ?X1 = "Seq (Lit CHR ''@'') (Seq ?R2 ?X2)"
  let ?s = "L @ CHR ''@'' # D @ CHR ''.'' # T"
  have Tne: "T \<noteq> []" using T(1) by auto
  have e: "extract_emails_re = Seq WordB (Seq ?R1 ?X1)"
    by (simp add: extract_emails_re_def email_core_def)
  have x3: "m ?X3 (Some (last T), [], g) = [(Some (last T), [], g)]" for g
    using T(2) Tne by (simp add: word_before_def word_after_def alpha_word)
  have r3: "first (m (Seq ?R3 ?X3) (q, T, [])) = Some (Some (last T), [], [])" for q
  proof -
    have "first (m (Seq ?R3 ?X3) (q, T @ [], [])) = first (m ?X3 (Some (last T), [], []))"
      using T Tne by (intro first_Seq_Rep_top) (simp_all only: x3, simp_all)
    then show ?thesis by (simp only: x3 append_Nil2 first_simps)
  qed
  have x2: "m ?X2 (q, CHR ''.'' # T, []) = m (Seq ?R3 ?X3) (Some CHR ''.'', T, [])" for q
    by simp
  have r2: "first (m (Seq ?R2 ?X2) (q, D @ CHR ''.'' # T, [])) = Some (Some (last T), [], [])" for q
  proof -
    let ?t = "D @ CHR ''.'' # T"
    have all: "\<forall>c\<in>set ?t. email_domain c"
      using D(2) T(2) by (auto simp: alpha_domain dot_domain)
    have tw: "takeWhile email_domain ?t = ?t" using all by (rule takeWhile_all)
    have nd: "\<forall>c\<in>set T. c \<noteq> CHR ''.''" using T(2) alpha_not_dot by blast
    have above: "m ?X2 (after j q ?t, drop j ?t, []) = []" if "length D < j" for j
    proof -
      have "drop j ?t = drop (j - Suc (length D)) T"
        using that by (simp add: drop_Cons')
      then show ?thesis using m_Lit_drop_Nil [OF nd] by simp
    qed
    have at: "m ?X2 (after (length D) q ?t, drop (length D) ?t, []) =
                m (Seq ?R3 ?X3) (Some CHR ''.'', T, [])"
      by simp
    have ne: "m (Seq ?R3 ?X3) (Some CHR ''.'', T, []) \<noteq> []"
      using r3 [of "Some CHR ''.''"] by (rule first_Some_ne)
    have "first (m (Seq ?R2 ?X2) (q, ?t, [])) =
            first (m ?X2 (after (length D) q ?t, drop (length D) ?t, []))"
    proof (rule first_Seq_Rep)
      show "1 \<le> length D" using D(1) by (cases D) auto
      show "length D \<le> bound None (length (takeWhile email_domain ?t))"
        by (simp only: tw bound_def option.case) simp
      show "m ?X2 (after j q ?t, drop j ?t, []) = []" if "length D < j" for j
        using that by (rule above)
      show "m ?X2 (after (length D) q ?t, drop (length D) ?t, []) \<noteq> []"
        unfolding at by (rule ne)
    qed
    then show ?thesis by (simp only: at r3)
  qed
  have x1: "m ?X1 (q, CHR ''@'' # D @ CHR ''.'' # T, []) =
              m (Seq ?R2 ?X2) (Some CHR ''@'', D @ CHR ''.'' # T, [])" for q
    by simp
  have r1: "first (m (Seq ?R1 ?X1) (None, ?s, [])) = Some (Some (last T), [], [])"
  proof -
    have ne2: "m (Seq ?R2 ?X2) (Some CHR ''@'', D @ CHR ''.'' # T, []) \<noteq> []"
      using r2 [of "Some CHR ''@''"] by (rule first_Some_ne)
    have ne: "m ?X1 (Some (last L), CHR ''@'' # D @ CHR ''.'' # T, []) \<noteq> []"
      unfolding x1 by (rule ne2)
    have "first (m (Seq ?R1 ?X1) (None, L @ (CHR ''@'' # D @ CHR ''.'' # T), [])) =
            first (m ?X1 (Some (last L), CHR ''@'' # D @ CHR ''.'' # T, []))"
      using L ne by (intro first_Seq_Rep_top) (simp_all add: not_local_at Suc_le_eq)
    then show ?thesis by (simp only: x1 r2)
  qed
  have "m WordB (None, ?s, []) = [(None, ?s, [])]"
    using w L(1) by (cases L) (simp_all add: word_before_def word_after_def)
  then have "m extract_emails_re (None, ?s, []) = m (Seq ?R1 ?X1) (None, ?s, [])"
    unfolding e by (rule m_Seq_single)
  then show ?thesis using r1 by simp
qed


lemma m_extract_emails_Nil: "m extract_emails_re (q, [], []) = []"
  by (simp add: extract_emails_re_def email_core_def m_Rep bound_def)

lemma extract_emails_whole:
  assumes "validate_email s" and "is_word (hd s)" and "last s \<noteq> CHR 0x0A"
  shows "extract_emails s = [Str s]"
proof -
  obtain p' g' where "(p', [], g') \<in> set (m (cat email_core) (None, s, []))"
    using anchored_full [of email_core s] assms(1,3)
    by (auto simp: validate_email_def validate_email_re_def simp del: cat.simps)
  from email_shape [OF this] obtain L D T where
    s: "s = L @ CHR ''@'' # D @ CHR ''.'' # T" and
    L: "L \<noteq> []" "\<forall>c\<in>set L. email_local c" and
    D: "D \<noteq> []" "\<forall>c\<in>set D. email_domain c" and
    T: "2 \<le> length T" "\<forall>c\<in>set T. is_alpha c"
    by blast
  have "is_word (hd L)" using assms(2) L(1) unfolding s by simp
  from first_extract_emails_re [OF L D T this]
  have f: "first (m extract_emails_re (None, s @ [], [])) = Some (Some (last T), [], [])"
    unfolding s by simp
  have ne: "s \<noteq> []" unfolding s using L(1) by simp
  have "scan extract_emails_re None s = [Hit s []]"
    using scan_hit [OF f ne] by (simp add: scan_Nil_input m_extract_emails_Nil)
  then show ?thesis
    by (simp add: extract_emails_def findall_def item_of_def ngroups_extract_emails_re)
qed

section \<open>Texts without a match\<close>



lemma items_Skip [simp]: "items n (map Skip s) = []"
  by (induction s) simp_all

lemma rebuild_Skip [simp]: "rebuild tmpl (map Skip s) = s"
  by (induction s) simp_all








section \<open>The claims\<close>

text \<open>
  C1. The claim: every element \<open>extract_phone_numbers\<close> returns is a substring of the
  text that matches the full phone format. The pattern has one capturing group, so
  \<open>findall\<close> returns the text of that group, the prefix, for every match: on
  \<open>081234567890\<close> the result is \<open>0\<close>, which the validator rejects.
\<close>

theorem extract_phone_numbers_returns_prefix:
  "extract_phone_numbers ''081234567890'' = [Str ''0'']
   \<and> extract_phone_numbers ''Telepon: 081234567890 atau +6287654321098'' = [Str ''0'', Str ''+62'']
   \<and> validate_phone_id ''081234567890'' \<and> \<not> validate_phone_id ''0''"
  by code_simp

text \<open>
  C3. The claim: \<open>extract_dates\<close> returns the substrings whose two separators are the
  same, and one whose separators differ is not a match. The pattern reads each
  separator with its own class \<open>[-/]\<close>, so \<open>15-08/2024\<close> is extracted.
\<close>

theorem extract_dates_mixed_separators:
  "extract_dates ''15-08/2024'' = [Str ''15-08/2024'']
   \<and> extract_dates ''Event tanggal: 15-08-2024 dan 20/12/2024'' = [Str ''15-08-2024'', Str ''20/12/2024'']
   \<and> extract_dates ''99-99-9999'' = [Str ''99-99-9999'']"
  by code_simp

text \<open>
  C10. A mention is found wherever the character \<open>@\<close> is followed by word characters,
  whatever stands before it: a text that holds \<open>@\<close>, a run \<open>w\<close> of word characters and
  then no further word character yields the mentions of the part before, then \<open>@w\<close>,
  then the mentions of the part after. The same holds for hashtags and \<open>#\<close>. So the
  domain of an email address is returned as a mention.
\<close>

theorem tags_ignore_context:
  assumes "w \<noteq> []" and "\<forall>c\<in>set w. is_word c" and "post = [] \<or> \<not> is_word (hd post)"
  shows "extract_mentions (pre @ CHR ''@'' # w @ post) =
           extract_mentions pre @ Str (CHR ''@'' # w) # extract_mentions post
       \<and> extract_hashtags (pre @ CHR ''#'' # w @ post) =
           extract_hashtags pre @ Str (CHR ''#'' # w) # extract_hashtags post
       \<and> extract_mentions ''info@company.com'' = [Str ''@company'']"
proof -
  have ng: "ngroups (tag_re t) = 0" for t by (simp add: tag_re_def)
  have "extract_mentions (pre @ CHR ''@'' # w @ post) =
           extract_mentions pre @ Str (CHR ''@'' # w) # extract_mentions post"
    using tags_in_context [OF not_word_at assms, of pre]
    by (simp add: extract_mentions_def findall_def ng items_scan_tag)
  moreover have "extract_hashtags (pre @ CHR ''#'' # w @ post) =
           extract_hashtags pre @ Str (CHR ''#'' # w) # extract_hashtags post"
    using tags_in_context [OF not_word_hash assms, of pre]
    by (simp add: extract_hashtags_def findall_def ng items_scan_tag)
  moreover have "extract_mentions ''info@company.com'' = [Str ''@company'']"
    by code_simp
  ultimately show ?thesis by simp
qed

theorem tags_ignore_context_witness:
  "''company'' \<noteq> [] \<and> list_all is_word ''company'' \<and> \<not> is_word (hd ''.com'')
   \<and> extract_mentions (''info'' @ CHR ''@'' # ''company'' @ ''.com'') =
       extract_mentions ''info'' @ Str (CHR ''@'' # ''company'') # extract_mentions ''.com''
   \<and> extract_hashtags (''info'' @ CHR ''#'' # ''company'' @ ''.com'') =
       extract_hashtags ''info'' @ Str (CHR ''#'' # ''company'') # extract_hashtags ''.com''"
proof -
  have h: "''company'' \<noteq> []" "\<forall>c\<in>set ''company''. is_word c"
    "''.com'' = [] \<or> \<not> is_word (hd ''.com'')"
    by (simp_all add: class_defs)
  show ?thesis
    using h tags_ignore_context [OF h, of "''info''"] by simp
qed

text \<open>
  C6. For every string, \<open>normalize_whitespace\<close> returns a text that holds no two
  consecutive spaces, neither starts nor ends with a whitespace character, and is
  left as it is by \<open>normalize_whitespace\<close>.
\<close>

theorem normalize_whitespace_normal_form:
  "\<exists>r. normalize_whitespace s = Inr r
     \<and> (\<forall>u v. r \<noteq> u @ ''  '' @ v)
     \<and> (r \<noteq> [] \<longrightarrow> \<not> is_space (hd r) \<and> \<not> is_space (last r))
     \<and> normalize_whitespace r = Inr r"
proof -
  let ?r = "strip (collapse s)"
  have t: "tidy ?r" by (simp add: tidy_strip tidy_collapse)
  have ends: "?r \<noteq> [] \<longrightarrow> \<not> is_space (hd ?r) \<and> \<not> is_space (last ?r)"
    by (simp add: strip_hd strip_last)
  then have "strip ?r = ?r" by (intro strip_fixed) blast
  then have "normalize_whitespace ?r = Inr ?r"
    using t by (simp add: normalize_whitespace_eq collapse_tidy)
  moreover have "\<forall>u v. ?r \<noteq> u @ ''  '' @ v"
    using tidy_no_double [OF t] by blast
  ultimately show ?thesis
    using ends normalize_whitespace_eq [of s] by blast
qed

theorem normalize_whitespace_normal_form_witness:
  "normalize_whitespace ''  Ini    teks   dengan    banyak      spasi '' =
     Inr ''Ini teks dengan banyak spasi''
   \<and> \<not> is_space (hd ''Ini teks dengan banyak spasi'')
   \<and> \<not> is_space (last ''Ini teks dengan banyak spasi'')
   \<and> normalize_whitespace ''Ini teks dengan banyak spasi'' = Inr ''Ini teks dengan banyak spasi''"
proof -
  have v: "normalize_whitespace ''  Ini    teks   dengan    banyak      spasi '' =
     Inr ''Ini teks dengan banyak spasi''"
    by code_simp
  from normalize_whitespace_normal_form [of "''  Ini    teks   dengan    banyak      spasi ''"]
  show ?thesis unfolding v by simp
qed




text \<open>
  C4. For every phone number made of a prefix \<open>+62\<close>, \<open>62\<close> or \<open>0\<close> and 9 to 12
  digits, \<open>mask_phone\<close> returns the prefix, four asterisks and the last four digits,
  however many digits stood in between.
\<close>

theorem mask_phone_keeps_prefix_and_last4:
  assumes "p \<in> {''+62'', ''62'', ''0''}" and "\<forall>c\<in>set d. is_digit c"
    and "9 \<le> length d" and "length d \<le> 12"
  shows "mask_phone (p @ d) = Inr (p @ ''****'' @ drop (length d - 4) d)"
proof -
  let ?g = "[(3, drop (length d - 4) d), (2, take (length d - 4) d), (1, p)]"
  have ne: "p @ d \<noteq> []" using assms(1) by auto
  have "first (m mask_phone_re (None, (p @ d) @ [], [])) = Some (Some (last d), [], ?g)"
    using first_mask_phone_re [OF assms] by simp
  from scan_hit [OF this ne]
  have "scan mask_phone_re None (p @ d) = [Hit (p @ d) ?g]"
    by (simp add: scan_Nil_input m_mask_phone_re_Nil)
  moreover have "ngroups mask_phone_re = 3"
    by (simp add: mask_phone_re_def phone_prefix_def lits_def)
  ultimately show ?thesis
    by (simp add: mask_phone_def sub_def grp_def)
qed

theorem mask_phone_keeps_prefix_and_last4_witness:
  "list_all is_digit ''81234567890'' \<and> 9 \<le> length ''81234567890'' \<and> length ''81234567890'' \<le> 12
   \<and> mask_phone (''0'' @ ''81234567890'') = Inr ''0****7890''"
proof -
  have d: "\<forall>c\<in>set ''81234567890''. is_digit c" by (simp add: class_defs)
  have "mask_phone (''0'' @ ''81234567890'') =
          Inr (''0'' @ ''****'' @ drop (length ''81234567890'' - 4) ''81234567890'')"
    by (rule mask_phone_keeps_prefix_and_last4 [OF _ d]) simp_all
  then show ?thesis using d by (simp add: list_all_iff)
qed

text \<open>
  C9. A string that matches a format from its first to its last character, followed by
  one newline, is accepted by \<open>validate_email\<close>, \<open>validate_phone_id\<close>, \<open>validate_url\<close>
  and \<open>validate_nik\<close>, although the string with the newline does not match the format
  from its first to its last character: \<open>$\<close> holds just before a final newline.
\<close>

theorem trailing_newline_accepted:
  "(fullmatch (cat email_core) v \<longrightarrow>
      validate_email (v @ [CHR 0x0A]) \<and> \<not> fullmatch (cat email_core) (v @ [CHR 0x0A]))
   \<and> (fullmatch (cat phone_core) v \<longrightarrow>
      validate_phone_id (v @ [CHR 0x0A]) \<and> \<not> fullmatch (cat phone_core) (v @ [CHR 0x0A]))
   \<and> (fullmatch (cat url_core) v \<longrightarrow>
      validate_url (v @ [CHR 0x0A]) \<and> \<not> fullmatch (cat url_core) (v @ [CHR 0x0A]))
   \<and> (fullmatch (cat nik_core) v \<longrightarrow>
      validate_nik (v @ [CHR 0x0A]) \<and> \<not> fullmatch (cat nik_core) (v @ [CHR 0x0A]))"
  by (simp add: validate_email_def validate_email_re_def validate_phone_id_def validate_phone_re_def
      validate_url_def validate_url_re_def validate_nik_def validate_nik_re_def
      newline_accepted noeol_cores newline_not_full nonl_cores del: cat.simps)

theorem trailing_newline_accepted_witness:
  "fullmatch (cat email_core) ''user@example.com''
   \<and> validate_email (''user@example.com'' @ [CHR 0x0A])
   \<and> \<not> fullmatch (cat email_core) (''user@example.com'' @ [CHR 0x0A])
   \<and> fullmatch (cat phone_core) ''081234567890''
   \<and> validate_phone_id (''081234567890'' @ [CHR 0x0A])
   \<and> \<not> fullmatch (cat phone_core) (''081234567890'' @ [CHR 0x0A])
   \<and> fullmatch (cat url_core) ''https://www.example.com''
   \<and> validate_url (''https://www.example.com'' @ [CHR 0x0A])
   \<and> \<not> fullmatch (cat url_core) (''https://www.example.com'' @ [CHR 0x0A])
   \<and> fullmatch (cat nik_core) ''3201234567890123''
   \<and> validate_nik (''3201234567890123'' @ [CHR 0x0A])
   \<and> \<not> fullmatch (cat nik_core) (''3201234567890123'' @ [CHR 0x0A])"
proof -
  have f: "fullmatch (cat email_core) ''user@example.com''"
    "fullmatch (cat phone_core) ''081234567890''"
    "fullmatch (cat url_core) ''https://www.example.com''"
    "fullmatch (cat nik_core) ''3201234567890123''"
    by code_simp+
  show ?thesis
    using f trailing_newline_accepted [of "''user@example.com''"]
      trailing_newline_accepted [of "''081234567890''"]
      trailing_newline_accepted [of "''https://www.example.com''"]
      trailing_newline_accepted [of "''3201234567890123''"]
    by blast
qed




text \<open>
  C2. The claim: whenever a validator accepts a string, the extractor of the same
  format returns that string alone. The email validator accepts \<open>-a@b.cc\<close>, but the
  extractor's pattern starts at a word boundary and returns \<open>a@b.cc\<close>; the URL
  validator accepts a URL followed by a newline, and the extractor returns the URL
  without the newline.
\<close>

theorem validated_text_is_extracted_counterexample:
  "validate_email ''-a@b.cc'' \<and> extract_emails ''-a@b.cc'' = [Str ''a@b.cc'']
   \<and> validate_url (''http://a.bc'' @ [CHR 0x0A])
   \<and> extract_urls (''http://a.bc'' @ [CHR 0x0A]) = [Str ''http://a.bc'']"
  by code_simp

text \<open>
  C2, as amended. If \<open>validate_email\<close> accepts a string that starts with a word
  character and does not end with a newline, \<open>extract_emails\<close> returns that string
  alone; if \<open>validate_url\<close> accepts a string that does not end with a newline,
  \<open>extract_urls\<close> returns that string alone.
\<close>

theorem validated_text_is_extracted:
  "(validate_email s \<and> is_word (hd s) \<and> last s \<noteq> CHR 0x0A \<longrightarrow> extract_emails s = [Str s])
   \<and> (validate_url s \<and> last s \<noteq> CHR 0x0A \<longrightarrow> extract_urls s = [Str s])"
  using extract_emails_whole extract_urls_whole by blast

theorem validated_text_is_extracted_witness:
  "validate_email ''user@example.com'' \<and> is_word (hd ''user@example.com'')
   \<and> last ''user@example.com'' \<noteq> CHR 0x0A
   \<and> extract_emails ''user@example.com'' = [Str ''user@example.com'']
   \<and> validate_url ''https://www.example.com'' \<and> last ''https://www.example.com'' \<noteq> CHR 0x0A
   \<and> extract_urls ''https://www.example.com'' = [Str ''https://www.example.com'']"
proof -
  have h: "validate_email ''user@example.com''" "is_word (hd ''user@example.com'')"
    "last ''user@example.com'' \<noteq> CHR 0x0A"
    "validate_url ''https://www.example.com''" "last ''https://www.example.com'' \<noteq> CHR 0x0A"
    by code_simp+
  show ?thesis
    using h validated_text_is_extracted [of "''user@example.com''"]
      validated_text_is_extracted [of "''https://www.example.com''"]
    by blast
qed



end
